theory Spec2Isabelle
  imports Main "HOL-Library.Sublist"
begin

section \<open>Data model (page.py)\<close>

text \<open>
  A Python \<open>str\<close> is a sequence of Unicode code points; \<open>len\<close> counts code points and
  indexing yields one code point. A string is therefore a list of code points, each a
  natural number (\<open>ord\<close> of the character).
\<close>

type_synonym ustr = "nat list"

text \<open>
  The dataclasses \<open>Page\<close> and \<open>SplitPage\<close>. The metadata dictionary \<open>Dict[str, Any]\<close> is a
  map from keys to values of an arbitrary type \<open>'v\<close>. The field \<open>text\<close> is named
  \<open>page_text\<close> and \<open>split_text\<close>, the fields of \<open>SplitPage\<close> carry the prefix \<open>split\<close>.
\<close>

record 'v Page =
  page_num :: int
  offset :: int
  page_text :: ustr
  meta :: "string \<rightharpoonup> 'v"

record 'v SplitPage =
  split_page_num :: int
  split_text :: ustr
  split_meta :: "string \<rightharpoonup> 'v"

text \<open>
  \<open>SplitPage(page_num=p, text=t)\<close>: the constructor call as the splitters write it. The
  field \<open>meta\<close> is not passed, so the dataclass default \<open>field(default_factory=dict)\<close>
  applies: a fresh empty dictionary.
\<close>

definition SplitPage_new :: "int \<Rightarrow> ustr \<Rightarrow> 'v SplitPage" where
  "SplitPage_new p t = \<lparr>split_page_num = p, split_text = t, split_meta = Map.empty\<rparr>"

section \<open>Python primitives used by the splitters\<close>

datatype error = IndexError | ValueError | RecursionError

text \<open>
  The observable behaviour of a generator run: the items it has yielded so far, and how
  the run stands. \<open>Finished\<close>: the generator returned. \<open>Raised e\<close>: an exception left it.
  \<open>Running\<close>: the observation was cut off (the iteration budget of the model was used
  up) and the generator would still go on.
\<close>

datatype status = Finished | Raised error | Running

type_synonym 'a gen = "'a list \<times> status"

text \<open>\<open>yield from a; <rest>\<close>: the rest runs only when \<open>a\<close> has returned.\<close>

definition gen_then :: "'a gen \<Rightarrow> 'a gen \<Rightarrow> 'a gen" where
  "gen_then a b = (case snd a of Finished \<Rightarrow> (fst a @ fst b, snd b) | _ \<Rightarrow> a)"

text \<open>
  Slice bounds as CPython adjusts them (\<open>PySlice_AdjustIndices\<close>, step 1): a negative bound
  counts from the end, and every bound is clipped to \<open>0 .. len\<close>.
\<close>

definition adjust_index :: "nat \<Rightarrow> int \<Rightarrow> nat" where
  "adjust_index n i = (if i < 0 then nat (max 0 (i + int n)) else min n (nat i))"

text \<open>
  \<open>xs[lo:hi]\<close>, \<open>xs[:hi]\<close> and \<open>xs[lo:]\<close>. When the adjusted upper bound lies below the
  lower one the slice is empty, which the subtraction on \<open>nat\<close> gives.
\<close>

definition slice :: "'a list \<Rightarrow> int \<Rightarrow> int \<Rightarrow> 'a list" where
  "slice xs lo hi =
     take (adjust_index (length xs) hi - adjust_index (length xs) lo)
       (drop (adjust_index (length xs) lo) xs)"

definition slice_to :: "'a list \<Rightarrow> int \<Rightarrow> 'a list" where
  "slice_to xs hi = take (adjust_index (length xs) hi) xs"

definition slice_from :: "'a list \<Rightarrow> int \<Rightarrow> 'a list" where
  "slice_from xs lo = drop (adjust_index (length xs) lo) xs"

text \<open>
  \<open>xs[i]\<close>: a negative index counts from the end; outside \<open>-len .. len - 1\<close> Python raises
  \<open>IndexError\<close>, here \<open>None\<close>.
\<close>

definition py_index :: "'a list \<Rightarrow> int \<Rightarrow> 'a option" where
  "py_index xs i =
     (if 0 \<le> i \<and> i < int (length xs) then Some (xs ! nat i)
      else if - int (length xs) \<le> i \<and> i < 0 then Some (xs ! nat (i + int (length xs)))
      else None)"

text \<open>
  \<open>str.isspace\<close> on one code point, and \<open>str.strip()\<close> without arguments: the code points
  Python treats as whitespace are removed from both ends.
\<close>

definition py_isspace :: "nat \<Rightarrow> bool" where
  "py_isspace c =
     ((9 \<le> c \<and> c \<le> 13) \<or> (28 \<le> c \<and> c \<le> 32) \<or> c = 133 \<or> c = 160 \<or> c = 5760
      \<or> (8192 \<le> c \<and> c \<le> 8202) \<or> c = 8232 \<or> c = 8233 \<or> c = 8239 \<or> c = 8287
      \<or> c = 12288)"

definition strip :: "ustr \<Rightarrow> ustr" where
  "strip t = rev (dropWhile py_isspace (rev (dropWhile py_isspace t)))"

section \<open>Constants of text_splitter.py\<close>

definition STANDARD_WORD_BREAKS :: "nat list" where
  "STANDARD_WORD_BREAKS = [44, 59, 58, 32, 40, 41, 91, 93, 123, 125, 9, 10]"

definition CJK_WORD_BREAKS :: "nat list" where
  "CJK_WORD_BREAKS =
     [12289, 65292, 65307, 65306, 65288, 65289, 12304, 12305, 12300, 12301, 12302, 12303,
      12308, 12309, 12296, 12297, 12298, 12299, 12310, 12311, 12312, 12313, 12314, 12315,
      12317, 12318, 12319, 12336, 8211, 8212, 8216, 8217, 8218, 8219, 8220, 8221,
      8222, 8223, 8249, 8250]"

definition STANDARD_SENTENCE_ENDINGS :: "nat list" where
  "STANDARD_SENTENCE_ENDINGS = [46, 33, 63]"

definition CJK_SENTENCE_ENDINGS :: "nat list" where
  "CJK_SENTENCE_ENDINGS = [12290, 65281, 65311, 8252, 8263, 8264, 8265]"

definition DEFAULT_SECTION_LENGTH :: int where
  "DEFAULT_SECTION_LENGTH = 1000"

definition DEFAULT_OVERLAP_PERCENT :: int where
  "DEFAULT_OVERLAP_PERCENT = 10"

section \<open>SentenceTextSplitter\<close>

record SentenceTextSplitter =
  max_tokens_per_section :: int
  max_section_length :: int
  section_overlap :: int
  sentence_search_limit :: int
  sentence_endings :: "nat list"
  word_breaks :: "nat list"

text \<open>
  \<open>int(x / 100)\<close> for an integer \<open>x\<close>: true division, then truncation towards zero. The
  quotient of two integers is rounded once, and for \<open>x\<close> below 2 to the power 46 in
  magnitude the rounded quotient lies on the same side of every integer as the exact one,
  so the result is the exact quotient truncated towards zero.
\<close>

definition trunc_div100 :: "int \<Rightarrow> int" where
  "trunc_div100 x = (if x < 0 then - ((- x) div 100) else x div 100)"

definition SentenceTextSplitter_init :: "int \<Rightarrow> int \<Rightarrow> int \<Rightarrow> int \<Rightarrow> SentenceTextSplitter" where
  "SentenceTextSplitter_init max_tokens max_len overlap_percent search_limit =
     \<lparr>max_tokens_per_section = max_tokens,
      max_section_length = max_len,
      section_overlap = trunc_div100 (max_len * overlap_percent),
      sentence_search_limit = search_limit,
      sentence_endings = STANDARD_SENTENCE_ENDINGS @ CJK_SENTENCE_ENDINGS,
      word_breaks = STANDARD_WORD_BREAKS @ CJK_WORD_BREAKS\<rparr>"

subsection \<open>The page-offset locator \<open>_find_page\<close>\<close>

text \<open>
  The loop \<open>for i in range(len(pages) - 1)\<close> looks at each pair of neighbours in order and
  returns at the first pair whose offsets enclose the given offset; after the loop,
  \<open>pages[-1]\<close> raises \<open>IndexError\<close> on an empty list.
\<close>

fun find_page :: "'v Page list \<Rightarrow> int \<Rightarrow> error + int" where
  "find_page [] off = Inl IndexError"
| "find_page [p] off = Inr (page_num p)"
| "find_page (p # q # ps) off =
     (if offset p \<le> off \<and> off < offset q then Inr (page_num p) else find_page (q # ps) off)"

subsection \<open>The token recursion \<open>split_page_by_max_tokens\<close>\<close>

text \<open>
  \<open>text[i] in self.sentence_endings\<close>, with the \<open>IndexError\<close> of an index out of range as a
  value.
\<close>

definition ending_at :: "SentenceTextSplitter \<Rightarrow> ustr \<Rightarrow> int \<Rightarrow> error + bool" where
  "ending_at self t i =
     (case py_index t i of
        None \<Rightarrow> Inl IndexError
      | Some c \<Rightarrow> Inr (c \<in> set (sentence_endings self)))"

text \<open>
  The loop \<open>for offset in range(boundary)\<close> over the offsets still to visit. It returns
  \<open>split_pos\<close>: \<open>-1\<close> when no offset hits a sentence ending, else the position after the
  first hit, \<open>left\<close> tried before \<open>right\<close>. Python's \<open>and\<close> reads the character only when the
  comparison before it holds.
\<close>

fun search_boundary :: "SentenceTextSplitter \<Rightarrow> ustr \<Rightarrow> int \<Rightarrow> nat list \<Rightarrow> error + int" where
  "search_boundary self t center [] = Inr (- 1)"
| "search_boundary self t center (off # offs) =
     (let left = center - int off; right = center + int off in
      case (if left > 0 then ending_at self t left else Inr False) of
        Inl e \<Rightarrow> Inl e
      | Inr True \<Rightarrow> Inr (left + 1)
      | Inr False \<Rightarrow>
          (case (if right < int (length t) then ending_at self t right else Inr False) of
             Inl e \<Rightarrow> Inl e
           | Inr True \<Rightarrow> Inr (right + 1)
           | Inr False \<Rightarrow> search_boundary self t center offs))"

definition find_split_pos :: "SentenceTextSplitter \<Rightarrow> ustr \<Rightarrow> error + int" where
  "find_split_pos self t =
     search_boundary self t (int (length t) div 2) [0 ..< length t div 3]"

text \<open>
  \<open>int(length * (DEFAULT_OVERLAP_PERCENT / 100))\<close>: the length times the double nearest to
  one tenth, rounded to a double and truncated. That double exceeds one tenth by less
  than 1e-17, so for every length below 2 to the power 40 the rounded product is at
  least \<open>length div 10\<close> and below the next integer: the truncation is \<open>length div 10\<close>.
\<close>

definition fallback_overlap :: "ustr \<Rightarrow> int" where
  "fallback_overlap t = int (length t) div 10"

text \<open>
  The two texts the recursion continues on: the fallback halves around the midpoint when
  \<open>split_pos < 0\<close>, else the text before and after \<open>split_pos\<close>.
\<close>

definition fallback_first :: "ustr \<Rightarrow> ustr" where
  "fallback_first t = slice_to t (int (length t) div 2 + fallback_overlap t)"

definition fallback_second :: "ustr \<Rightarrow> ustr" where
  "fallback_second t = slice_from t (int (length t) div 2 - fallback_overlap t)"

definition split_halves :: "ustr \<Rightarrow> int \<Rightarrow> ustr \<times> ustr" where
  "split_halves t split_pos =
     (if split_pos < 0 then (fallback_first t, fallback_second t)
      else (slice_to t split_pos, slice_from t split_pos))"

text \<open>
  The generator \<open>split_page_by_max_tokens\<close>. The tokenizer \<open>encoder.encode\<close> (tiktoken) is
  outside the repository and is a parameter \<open>encode\<close>; only the number of tokens is used.
  CPython bounds the depth of nested frames: \<open>depth\<close> is the number of nested calls still
  allowed, and the call that would exceed it raises \<open>RecursionError\<close>.
\<close>

fun split_page_by_max_tokens ::
  "(ustr \<Rightarrow> 'tok list) \<Rightarrow> SentenceTextSplitter \<Rightarrow> nat \<Rightarrow> int \<Rightarrow> ustr \<Rightarrow> 'v SplitPage gen" where
  "split_page_by_max_tokens encode self 0 pn t = ([], Raised RecursionError)"
| "split_page_by_max_tokens encode self (Suc depth) pn t =
     (if int (length (encode t)) \<le> max_tokens_per_section self
      then ([SplitPage_new pn t], Finished)
      else
        (case find_split_pos self t of
           Inl e \<Rightarrow> ([], Raised e)
         | Inr split_pos \<Rightarrow>
             gen_then
               (split_page_by_max_tokens encode self depth pn (fst (split_halves t split_pos)))
               (split_page_by_max_tokens encode self depth pn (snd (split_halves t split_pos)))))"

subsection \<open>The sliding window of \<open>split_pages\<close>\<close>

text \<open>
  The inner \<open>while\<close> loop that moves \<open>cursor\<close> forward from \<open>end\<close>. It returns the final
  \<open>(cursor, last_word_break)\<close>, or the \<open>IndexError\<close> of \<open>all_text[cursor]\<close>.
\<close>

function scan_forward ::
  "SentenceTextSplitter \<Rightarrow> ustr \<Rightarrow> int \<Rightarrow> int \<Rightarrow> int \<Rightarrow> error + (int \<times> int)" where
  "scan_forward self all_text end0 cursor last_word_break =
     (if cursor < int (length all_text) \<and> cursor - end0 < sentence_search_limit self
      then
        (case py_index all_text cursor of
           None \<Rightarrow> Inl IndexError
         | Some c \<Rightarrow>
             if c \<notin> set (sentence_endings self)
             then scan_forward self all_text end0 (cursor + 1)
                    (if c \<in> set (word_breaks self) then cursor else last_word_break)
             else Inr (cursor, last_word_break))
      else Inr (cursor, last_word_break))"
  by pat_completeness auto
termination
  by (relation "measure (\<lambda>(self, all_text, end0, cursor, lwb). nat (int (length all_text) - cursor))")
    auto

declare scan_forward.simps [simp del]

text \<open>The cut chosen after the scan: the new value of \<open>end\<close>.\<close>

definition cut_position :: "ustr \<Rightarrow> int \<Rightarrow> int \<Rightarrow> int" where
  "cut_position all_text cursor last_word_break =
     (if cursor < int (length all_text) \<and> last_word_break > 0 then last_word_break + 1
      else cursor)"

text \<open>One window: from \<open>start\<close> to the new \<open>end\<close>.\<close>

definition extend_end :: "SentenceTextSplitter \<Rightarrow> ustr \<Rightarrow> int \<Rightarrow> error + int" where
  "extend_end self all_text start =
     (let end0 = min (start + max_section_length self) (int (length all_text)) in
      case scan_forward self all_text end0 end0 (- 1) of
        Inl e \<Rightarrow> Inl e
      | Inr (cursor, last_word_break) \<Rightarrow> Inr (cut_position all_text cursor last_word_break))"

text \<open>
  The outer loop \<open>while start < total_len\<close>. Nothing bounds its iterations in the source,
  so the model counts them: \<open>fuel\<close> is the number of loop tests still observed, and a run
  that uses them up is \<open>Running\<close>.
\<close>

fun window_loop ::
  "(ustr \<Rightarrow> 'tok list) \<Rightarrow> SentenceTextSplitter \<Rightarrow> nat \<Rightarrow> 'v Page list \<Rightarrow> ustr \<Rightarrow> nat \<Rightarrow> int
     \<Rightarrow> 'v SplitPage gen" where
  "window_loop encode self depth pages all_text 0 start = ([], Running)"
| "window_loop encode self depth pages all_text (Suc fuel) start =
     (if start < int (length all_text) then
        (case extend_end self all_text start of
           Inl e \<Rightarrow> ([], Raised e)
         | Inr end1 \<Rightarrow>
             (case find_page pages start of
                Inl e \<Rightarrow> ([], Raised e)
              | Inr pn \<Rightarrow>
                  gen_then
                    (split_page_by_max_tokens encode self depth pn (slice all_text start end1))
                    (window_loop encode self depth pages all_text fuel
                       (end1 - section_overlap self))))
      else ([], Finished))"

definition sentence_split_pages ::
  "(ustr \<Rightarrow> 'tok list) \<Rightarrow> SentenceTextSplitter \<Rightarrow> nat \<Rightarrow> nat \<Rightarrow> 'v Page list \<Rightarrow> 'v SplitPage gen" where
  "sentence_split_pages encode self depth fuel pages =
     (let all_text = concat (map page_text pages) in
      if strip all_text = [] then ([], Finished)
      else if int (length all_text) \<le> max_section_length self then
        (case find_page pages 0 of
           Inl e \<Rightarrow> ([], Raised e)
         | Inr pn \<Rightarrow> split_page_by_max_tokens encode self depth pn all_text)
      else window_loop encode self depth pages all_text fuel 0)"

section \<open>SimpleTextSplitter\<close>

record SimpleTextSplitter =
  max_object_length :: int

text \<open>
  The loop \<open>for idx in range(0, length, step)\<close> from the index \<open>idx\<close> on. A negative step
  gives an empty range; the step \<open>0\<close>, for which \<open>range\<close> raises, is handled by the caller.
\<close>

function simple_chunks :: "int \<Rightarrow> ustr \<Rightarrow> int \<Rightarrow> 'v SplitPage list" where
  "simple_chunks step all_text idx =
     (if 0 < step \<and> idx < int (length all_text)
      then SplitPage_new (idx div step) (slice all_text idx (idx + step))
             # simple_chunks step all_text (idx + step)
      else [])"
  by pat_completeness auto
termination
  by (relation "measure (\<lambda>(step, all_text, idx). nat (int (length all_text) - idx))") auto

declare simple_chunks.simps [simp del]

definition simple_split_pages :: "SimpleTextSplitter \<Rightarrow> 'v Page list \<Rightarrow> 'v SplitPage gen" where
  "simple_split_pages self pages =
     (let all_text = concat (map page_text pages) in
      if strip all_text = [] then ([], Finished)
      else if int (length all_text) \<le> max_object_length self
      then ([SplitPage_new 0 all_text], Finished)
      else if max_object_length self = 0 then ([], Raised ValueError)
      else (simple_chunks (max_object_length self) all_text 0, Finished))"

section \<open>Example inputs\<close>

text \<open>
  The tokenizer is outside the repository; the examples use a stand-in that makes one
  token of every code point. The splitters of the examples: the one the constructor
  builds from its defaults, one with a budget of two tokens, one with a budget of zero
  tokens, and two with windows of ten characters, with and without overlap.
\<close>

definition char_tokens :: "ustr \<Rightarrow> nat list" where
  "char_tokens t = t"

definition default_splitter :: SentenceTextSplitter where
  "default_splitter =
     SentenceTextSplitter_init 500 DEFAULT_SECTION_LENGTH DEFAULT_OVERLAP_PERCENT 100"

definition tiny_splitter :: SentenceTextSplitter where
  "tiny_splitter = SentenceTextSplitter_init 2 100 10 100"

definition zero_budget_splitter :: SentenceTextSplitter where
  "zero_budget_splitter = SentenceTextSplitter_init 0 1000 10 100"

definition ten_char_splitter :: SentenceTextSplitter where
  "ten_char_splitter = SentenceTextSplitter_init 500 10 10 100"

definition no_overlap_splitter :: SentenceTextSplitter where
  "no_overlap_splitter = SentenceTextSplitter_init 500 10 0 100"

text \<open>
  Documents: three pages of which the second is empty; pages of whitespace only; a page
  that ends in spaces; a page that ends in a sentence and a space; a short page with
  metadata; a page of 1001 letters; a page of eleven letters; and a text of 1000 letters
  followed by \<open>" bb. cc"\<close>.
\<close>

definition three_pages :: "string Page list" where
  "three_pages =
     [\<lparr>page_num = 0, offset = 0, page_text = [72, 105], meta = Map.empty\<rparr>,
      \<lparr>page_num = 1, offset = 2, page_text = [], meta = Map.empty\<rparr>,
      \<lparr>page_num = 2, offset = 2, page_text = [33, 33, 33], meta = Map.empty\<rparr>]"

definition blank_pages :: "string Page list" where
  "blank_pages =
     [\<lparr>page_num = 0, offset = 0, page_text = [32, 10], meta = Map.empty\<rparr>,
      \<lparr>page_num = 1, offset = 2, page_text = [], meta = Map.empty\<rparr>,
      \<lparr>page_num = 2, offset = 2, page_text = [9, 12288], meta = Map.empty\<rparr>]"

definition padded_page :: "string Page" where
  "padded_page = \<lparr>page_num = 0, offset = 0, page_text = [97, 32, 32, 32], meta = Map.empty\<rparr>"

definition sentence_page :: "string Page" where
  "sentence_page = \<lparr>page_num = 0, offset = 0, page_text = [97, 46, 32], meta = Map.empty\<rparr>"

definition hello_page :: "string Page" where
  "hello_page =
     \<lparr>page_num = 0, offset = 0, page_text = [72, 101, 108, 108, 111],
      meta = [''url'' \<mapsto> ''https://example.org/hello'']\<rparr>"

definition long_page :: "string Page" where
  "long_page = \<lparr>page_num = 0, offset = 0, page_text = replicate 1001 97, meta = Map.empty\<rparr>"

definition eleven_page :: "string Page" where
  "eleven_page =
     \<lparr>page_num = 0, offset = 0,
      page_text = [97, 97, 97, 97, 97, 97, 97, 97, 97, 97, 97], meta = Map.empty\<rparr>"

definition long_sentences :: ustr where
  "long_sentences = replicate 1000 97 @ [32, 98, 98, 46, 32, 99, 99]"

section \<open>Basic facts\<close>

subsection \<open>Generators, slices and \<open>strip\<close>\<close>

lemma set_gen_then: "set (fst (gen_then a b)) \<subseteq> set (fst a) \<union> set (fst b)"
  by (auto simp: gen_then_def split: status.splits)

lemma snd_gen_then: "snd (gen_then a b) = (if snd a = Finished then snd b else snd a)"
  by (simp add: gen_then_def split: status.splits)

lemma snd_gen_then_Finished:
  "snd (gen_then a b) = Finished \<longleftrightarrow> snd a = Finished \<and> snd b = Finished"
  by (auto simp: gen_then_def split: status.splits)

lemma sublist_slice_to: "sublist (slice_to xs hi) xs"
  by (simp add: slice_to_def)

lemma sublist_slice_from: "sublist (slice_from xs lo) xs"
  by (simp add: slice_from_def)

text \<open>\<open>not text.strip()\<close> holds exactly for the texts of whitespace only, the empty one included.\<close>

lemma strip_Nil_iff: "strip t = [] \<longleftrightarrow> (\<forall>c \<in> set t. py_isspace c)"
proof
  assume "\<forall>c \<in> set t. py_isspace c"
  then show "strip t = []" by (auto simp: strip_def dest: set_dropWhileD)
next
  assume s: "strip t = []"
  show "\<forall>c \<in> set t. py_isspace c"
  proof (rule ccontr)
    assume "\<not> (\<forall>c \<in> set t. py_isspace c)"
    then have ne: "dropWhile py_isspace t \<noteq> []" by (simp add: dropWhile_eq_Nil_conv)
    then have "\<not> py_isspace (hd (dropWhile py_isspace t))" by (rule hd_dropWhile)
    moreover from s have "\<forall>c \<in> set (dropWhile py_isspace t). py_isspace c"
      by (simp add: strip_def dropWhile_eq_Nil_conv)
    ultimately show False using ne by (meson hd_in_set)
  qed
qed

lemma strip_nonempty: "strip t \<noteq> [] \<Longrightarrow> t \<noteq> []"
  by (cases t) (simp_all add: strip_def)

lemma strip_spaces: "strip [32] = []" "strip [32, 32] = []"
  by (simp_all add: strip_def py_isspace_def)

lemma strip_examples: "strip [97, 46, 32] \<noteq> []" "strip [97, 32, 32, 32] \<noteq> []"
  "strip [72, 101, 108, 108, 111] \<noteq> []"
  by (simp_all add: strip_def py_isspace_def)

subsection \<open>Fields of the example splitters\<close>

lemma init_fields:
  "max_tokens_per_section (SentenceTextSplitter_init a b c d) = a"
  "max_section_length (SentenceTextSplitter_init a b c d) = b"
  "section_overlap (SentenceTextSplitter_init a b c d) = trunc_div100 (b * c)"
  "sentence_search_limit (SentenceTextSplitter_init a b c d) = d"
  "sentence_endings (SentenceTextSplitter_init a b c d)
     = [46, 33, 63, 12290, 65281, 65311, 8252, 8263, 8264, 8265]"
  "word_breaks (SentenceTextSplitter_init a b c d)
     = [44, 59, 58, 32, 40, 41, 91, 93, 123, 125, 9, 10,
        12289, 65292, 65307, 65306, 65288, 65289, 12304, 12305, 12300, 12301, 12302, 12303,
        12308, 12309, 12296, 12297, 12298, 12299, 12310, 12311, 12312, 12313, 12314, 12315,
        12317, 12318, 12319, 12336, 8211, 8212, 8216, 8217, 8218, 8219, 8220, 8221,
        8222, 8223, 8249, 8250]"
  by (simp_all add: SentenceTextSplitter_init_def STANDARD_SENTENCE_ENDINGS_def
      CJK_SENTENCE_ENDINGS_def STANDARD_WORD_BREAKS_def CJK_WORD_BREAKS_def)

lemma default_splitter_fields:
  "max_tokens_per_section default_splitter = 500"
  "max_section_length default_splitter = 1000"
  "section_overlap default_splitter = 100"
  "sentence_search_limit default_splitter = 100"
  by (simp_all add: default_splitter_def init_fields trunc_div100_def
      DEFAULT_SECTION_LENGTH_def DEFAULT_OVERLAP_PERCENT_def)

lemma default_endings:
  "sentence_endings default_splitter = [46, 33, 63, 12290, 65281, 65311, 8252, 8263, 8264, 8265]"
  by (simp add: default_splitter_def init_fields)

lemma space_is_word_break: "32 \<in> set (word_breaks default_splitter)"
  "98 \<notin> set (word_breaks default_splitter)"
  by (simp_all add: default_splitter_def init_fields)

lemma tiny_splitter_fields:
  "max_tokens_per_section tiny_splitter = 2"
  "max_section_length tiny_splitter = 100"
  "section_overlap tiny_splitter = 10"
  "sentence_search_limit tiny_splitter = 100"
  "sentence_endings tiny_splitter = [46, 33, 63, 12290, 65281, 65311, 8252, 8263, 8264, 8265]"
  by (simp_all add: tiny_splitter_def init_fields trunc_div100_def)

lemma ten_char_fields:
  "max_tokens_per_section ten_char_splitter = 500"
  "max_section_length ten_char_splitter = 10"
  "section_overlap ten_char_splitter = 1"
  "sentence_search_limit ten_char_splitter = 100"
  by (simp_all add: ten_char_splitter_def init_fields trunc_div100_def)

section \<open>The page-offset locator\<close>

lemma find_page_in_range:
  "sorted (map offset pages) \<Longrightarrow> Suc i < length pages \<Longrightarrow> offset (pages ! i) \<le> off \<Longrightarrow>
   off < offset (pages ! Suc i) \<Longrightarrow> find_page pages off = Inr (page_num (pages ! i))"
proof (induction pages off arbitrary: i rule: find_page.induct)
  case (1 off)
  then show ?case by simp
next
  case (2 p off)
  then show ?case by simp
next
  case (3 p q ps off)
  show ?case
  proof (cases i)
    case 0
    with "3.prems"(3,4) show ?thesis by simp
  next
    case (Suc j)
    have le: "offset q \<le> offset ((q # ps) ! j)"
      using "3.prems"(1,2) Suc by (cases j) auto
    have nohit: "\<not> (offset p \<le> off \<and> off < offset q)"
      using le "3.prems"(3) Suc by simp
    have s: "sorted (map offset (q # ps))" using "3.prems"(1) by simp
    have l: "Suc j < length (q # ps)" using "3.prems"(2) Suc by simp
    have a: "offset ((q # ps) ! j) \<le> off" using "3.prems"(3) Suc by simp
    have b: "off < offset ((q # ps) ! Suc j)" using "3.prems"(4) Suc by simp
    have "find_page (q # ps) off = Inr (page_num ((q # ps) ! j))"
      by (rule "3.IH"[OF nohit s l a b])
    moreover have "find_page (p # q # ps) off = find_page (q # ps) off"
      using nohit by auto
    ultimately show ?thesis using Suc by simp
  qed
qed

lemma find_page_last:
  "sorted (map offset pages) \<Longrightarrow> pages \<noteq> [] \<Longrightarrow> offset (last pages) \<le> off \<Longrightarrow>
   find_page pages off = Inr (page_num (last pages))"
proof (induction pages off rule: find_page.induct)
  case (1 off)
  then show ?case by simp
next
  case (2 p off)
  then show ?case by simp
next
  case (3 p q ps off)
  have "offset q \<le> offset (last (q # ps))"
    using "3.prems"(1) by (cases "ps = []") auto
  with "3.prems"(3) have nohit: "\<not> (offset p \<le> off \<and> off < offset q)" by simp
  have s: "sorted (map offset (q # ps))" using "3.prems"(1) by simp
  have "find_page (q # ps) off = Inr (page_num (last (q # ps)))"
    using "3.IH"[OF nohit s] "3.prems"(3) by simp
  moreover have "find_page (p # q # ps) off = find_page (q # ps) off"
    using nohit by auto
  ultimately show ?case by simp
qed

text \<open>
  Claim C7. For pages sorted by offset, \<open>_find_page\<close> returns the \<open>page_num\<close> of the page
  \<open>i\<close> whose range, from its own offset up to and not including the next page's offset,
  holds the given offset; an offset at or beyond the last page's offset resolves to the
  last page; and for a list of one page the result is that page's \<open>page_num\<close>. No
  assumption on the sign of the offset is needed.
\<close>

theorem find_page_contract:
  "sorted (map offset pages) \<Longrightarrow>
   (\<forall>i. Suc i < length pages \<and> offset (pages ! i) \<le> off \<and> off < offset (pages ! Suc i)
      \<longrightarrow> find_page pages off = Inr (page_num (pages ! i)))
   \<and> (pages \<noteq> [] \<and> offset (last pages) \<le> off
      \<longrightarrow> find_page pages off = Inr (page_num (last pages)))
   \<and> find_page [p] off = Inr (page_num p)"
  using find_page_in_range find_page_last by (metis find_page.simps(2))

theorem find_page_contract_witness:
  "sorted (map offset three_pages)
   \<and> find_page three_pages 1 = Inr 0
   \<and> find_page three_pages 2 = Inr 2
   \<and> find_page three_pages 7 = Inr 2
   \<and> find_page [hd three_pages] 7 = Inr 0"
  using find_page_contract[of three_pages 1 "hd three_pages"]
  by (simp add: three_pages_def)

section \<open>The fallback halves\<close>

lemma adjust_index_mid_plus:
  "adjust_index n (int n div 2 + int n div 10) = n div 2 + n div 10"
proof -
  have e: "int n div 2 = int (n div 2)" "int n div 10 = int (n div 10)" by simp_all
  have "nat (int n div 2 + int n div 10) = n div 2 + n div 10" unfolding e by arith
  moreover have "n div 2 + n div 10 \<le> n" by arith
  moreover have "0 \<le> int n div 2 + int n div 10" by arith
  ultimately show ?thesis unfolding adjust_index_def by simp
qed

lemma adjust_index_mid_minus:
  "adjust_index n (int n div 2 - int n div 10) = n div 2 - n div 10"
proof -
  have e: "int n div 2 = int (n div 2)" "int n div 10 = int (n div 10)" by simp_all
  have "nat (int n div 2 - int n div 10) = n div 2 - n div 10" unfolding e by arith
  moreover have "n div 2 - n div 10 \<le> n" by arith
  moreover have "0 \<le> int n div 2 - int n div 10" by arith
  ultimately show ?thesis unfolding adjust_index_def by simp
qed

lemma fallback_first_take:
  "fallback_first t = take (length t div 2 + length t div 10) t"
  unfolding fallback_first_def fallback_overlap_def slice_to_def adjust_index_mid_plus ..

lemma fallback_second_drop:
  "fallback_second t = drop (length t div 2 - length t div 10) t"
  unfolding fallback_second_def fallback_overlap_def slice_from_def adjust_index_mid_minus ..

lemma fallback_pad_nat: "nat (fallback_overlap t) = length t div 10"
  by (simp add: fallback_overlap_def zdiv_int[symmetric] del: zdiv_int)

text \<open>
  Claim C8. With \<open>mid = length div 2\<close> and \<open>pad\<close> the fallback overlap, the halves
  \<open>text[: mid + pad]\<close> and \<open>text[mid - pad :]\<close> together hold exactly \<open>2 * pad\<close> characters
  more than the text, the last \<open>2 * pad\<close> characters of the first are the first
  \<open>2 * pad\<close> characters of the second, and the first followed by the second without
  its first \<open>2 * pad\<close> characters is the text.
\<close>

theorem fallback_halves_overlap:
  "length (fallback_first t) + length (fallback_second t)
     = length t + 2 * nat (fallback_overlap t)
   \<and> drop (length (fallback_first t) - 2 * nat (fallback_overlap t)) (fallback_first t)
     = take (2 * nat (fallback_overlap t)) (fallback_second t)
   \<and> length (take (2 * nat (fallback_overlap t)) (fallback_second t))
     = 2 * nat (fallback_overlap t)
   \<and> fallback_first t @ drop (2 * nat (fallback_overlap t)) (fallback_second t) = t"
proof -
  define n a p where "n = length t" and "a = length t div 2" and "p = length t div 10"
  have pa: "p \<le> a" and apn: "a + p \<le> n" unfolding n_def a_def p_def by arith+
  have f: "fallback_first t = take (a + p) t" and s: "fallback_second t = drop (a - p) t"
    and pd: "nat (fallback_overlap t) = p"
    unfolding a_def p_def by (rule fallback_first_take fallback_second_drop fallback_pad_nat)+
  have lf: "length (fallback_first t) = a + p" using apn by (simp add: f n_def)
  have ls: "length (fallback_second t) = n - (a - p)" by (simp add: s n_def)
  have c1: "length (fallback_first t) + length (fallback_second t) = length t + 2 * p"
    using pa apn unfolding lf ls n_def by arith
  have c2: "drop (length (fallback_first t) - 2 * p) (fallback_first t)
              = take (2 * p) (fallback_second t)"
  proof -
    have "a + p - 2 * p = a - p" and "a + p - (a - p) = 2 * p" using pa by arith+
    then show ?thesis unfolding lf unfolding f s by (simp add: drop_take)
  qed
  have c3: "length (take (2 * p) (fallback_second t)) = 2 * p"
    using pa apn unfolding s n_def by simp
  have c4: "fallback_first t @ drop (2 * p) (fallback_second t) = t"
  proof -
    have "2 * p + (a - p) = a + p" using pa by arith
    then show ?thesis unfolding f s by (simp add: add.commute)
  qed
  show ?thesis unfolding pd using c1 c2 c3 c4 by simp
qed

lemma fallback_first_shorter: "1 \<le> length t \<Longrightarrow> length (fallback_first t) < length t"
  unfolding fallback_first_take by simp

lemma fallback_second_shorter: "2 \<le> length t \<Longrightarrow> length (fallback_second t) < length t"
  unfolding fallback_second_drop by simp

section \<open>The token recursion\<close>

subsection \<open>The boundary search never raises, and a hit lies inside the text\<close>

lemma ending_at_in_range:
  "0 \<le> i \<Longrightarrow> i < int (length t) \<Longrightarrow>
   ending_at self t i = Inr (t ! nat i \<in> set (sentence_endings self))"
  by (simp add: ending_at_def py_index_def)

lemma search_boundary_result:
  assumes "\<forall>off \<in> set offs. off < length t div 3"
  shows "\<exists>p. search_boundary self t (int (length t) div 2) offs = Inr p
           \<and> (p = - 1 \<or> (0 < p \<and> p < int (length t)))"
  using assms
proof (induction offs)
  case Nil
  then show ?case by simp
next
  case (Cons off offs)
  define n where "n = int (length t)"
  define left where "left = n div 2 - int off"
  define right where "right = n div 2 + int off"
  have e: "n div 3 = int (length t div 3)" unfolding n_def by simp
  have off: "int off < n div 3" unfolding e using Cons.prems by simp
  have lpos: "0 < left" and llt: "left + 1 < n" and rge: "0 \<le> right" and rlt: "right + 1 < n"
    using off unfolding left_def right_def by arith+
  have L: "ending_at self t left = Inr (t ! nat left \<in> set (sentence_endings self))"
    using lpos llt by (intro ending_at_in_range) (simp_all add: n_def)
  have R: "ending_at self t right = Inr (t ! nat right \<in> set (sentence_endings self))"
    using rge rlt by (intro ending_at_in_range) (simp_all add: n_def)
  from Cons have IH: "\<exists>p. search_boundary self t (n div 2) offs = Inr p
           \<and> (p = - 1 \<or> (0 < p \<and> p < n))" unfolding n_def by simp
  show ?case
    using lpos llt rge rlt L R IH
    unfolding n_def[symmetric] search_boundary.simps Let_def left_def[symmetric] right_def[symmetric]
    by (auto split: sum.splits bool.splits)
qed

lemma find_split_pos_result:
  "\<exists>p. find_split_pos self t = Inr p \<and> (p = - 1 \<or> (0 < p \<and> p < int (length t)))"
  unfolding find_split_pos_def by (rule search_boundary_result) simp

lemma find_split_pos_short: "length t < 3 \<Longrightarrow> find_split_pos self t = Inr (- 1)"
  by (simp add: find_split_pos_def)

subsection \<open>Both halves are shorter when the text has two characters or more\<close>

lemma split_halves_shorter:
  assumes "2 \<le> length t" and "find_split_pos self t = Inr p"
  shows "length (fst (split_halves t p)) < length t"
    and "length (snd (split_halves t p)) < length t"
proof -
  from find_split_pos_result[of self t] assms(2)
  consider (none) "p = - 1" | (hit) "0 < p" "p < int (length t)" by auto
  then have "length (fst (split_halves t p)) < length t \<and> length (snd (split_halves t p)) < length t"
  proof cases
    case none
    with assms(1) show ?thesis
      by (simp add: split_halves_def fallback_first_shorter fallback_second_shorter)
  next
    case hit
    then have "adjust_index (length t) p = nat p" by (simp add: adjust_index_def)
    moreover have "nat p < length t" "0 < nat p" using hit by linarith+
    ultimately show ?thesis using hit(1)
      by (simp add: split_halves_def slice_to_def slice_from_def)
  qed
  then show "length (fst (split_halves t p)) < length t"
    and "length (snd (split_halves t p)) < length t" by simp_all
qed

lemma split_halves_single: "length t = 1 \<Longrightarrow> split_halves t (- 1) = ([], t)"
  by (simp add: split_halves_def fallback_first_take fallback_second_drop)

lemma split_halves_empty: "split_halves [] (- 1) = ([], [])"
  by (simp add: split_halves_def fallback_first_take fallback_second_drop)

lemma sublist_split_halves:
  "sublist (fst (split_halves t p)) t" "sublist (snd (split_halves t p)) t"
  by (simp_all add: split_halves_def fallback_first_def fallback_second_def
      sublist_slice_to sublist_slice_from)

subsection \<open>Enough depth lets the recursion return\<close>

text \<open>
  When every text of at most one character is within the token budget, a run that may
  nest deeper than the text is long returns, and it has yielded a chunk.
\<close>

lemma split_page_by_max_tokens_finishes:
  assumes budget: "\<And>u. length u \<le> 1 \<Longrightarrow> int (length (encode u)) \<le> max_tokens_per_section self"
  shows "length t < depth \<Longrightarrow>
    snd (split_page_by_max_tokens encode self depth pn t :: 'v SplitPage gen) = Finished"
proof (induction depth arbitrary: t)
  case 0
  then show ?case by simp
next
  case (Suc depth)
  show ?case
  proof (cases "int (length (encode t)) \<le> max_tokens_per_section self")
    case True
    then show ?thesis by simp
  next
    case over: False
    with budget[of t] have len: "2 \<le> length t" by fastforce
    from find_split_pos_result[of self t] obtain p where p: "find_split_pos self t = Inr p" by blast
    have l1: "length (fst (split_halves t p)) < depth"
      and l2: "length (snd (split_halves t p)) < depth"
      using split_halves_shorter[OF len p] Suc.prems by simp_all
    have "snd (split_page_by_max_tokens encode self depth pn (fst (split_halves t p))
            :: 'v SplitPage gen) = Finished"
      by (rule Suc.IH[OF l1])
    moreover have "snd (split_page_by_max_tokens encode self depth pn (snd (split_halves t p))
            :: 'v SplitPage gen) = Finished"
      by (rule Suc.IH[OF l2])
    ultimately show ?thesis using over p by (simp add: snd_gen_then_Finished)
  qed
qed

lemma split_page_by_max_tokens_yields:
  assumes budget: "\<And>u. length u \<le> 1 \<Longrightarrow> int (length (encode u)) \<le> max_tokens_per_section self"
  shows "length t < depth \<Longrightarrow>
    fst (split_page_by_max_tokens encode self depth pn t :: 'v SplitPage gen) \<noteq> []"
proof (induction depth arbitrary: t)
  case 0
  then show ?case by simp
next
  case (Suc depth)
  show ?case
  proof (cases "int (length (encode t)) \<le> max_tokens_per_section self")
    case True
    then show ?thesis by simp
  next
    case over: False
    with budget[of t] have len: "2 \<le> length t" by fastforce
    from find_split_pos_result[of self t] obtain p where p: "find_split_pos self t = Inr p" by blast
    have l1: "length (fst (split_halves t p)) < depth"
      using split_halves_shorter(1)[OF len p] Suc.prems by simp
    have a: "fst (split_page_by_max_tokens encode self depth pn (fst (split_halves t p))
            :: 'v SplitPage gen) \<noteq> []"
      by (rule Suc.IH[OF l1])
    have b: "snd (split_page_by_max_tokens encode self depth pn (fst (split_halves t p))
            :: 'v SplitPage gen) = Finished"
      by (rule split_page_by_max_tokens_finishes[OF budget l1])
    show ?thesis using over p a b by (simp add: gen_then_def)
  qed
qed

lemma split_chunk_within_budget:
  "c \<in> set (fst (split_page_by_max_tokens encode self depth pn t)) \<Longrightarrow>
   int (length (encode (split_text c))) \<le> max_tokens_per_section self"
proof (induction depth arbitrary: t)
  case 0
  then show ?case by simp
next
  case (Suc depth)
  show ?case
  proof (cases "int (length (encode t)) \<le> max_tokens_per_section self")
    case True
    with Suc.prems show ?thesis by (simp add: SplitPage_new_def)
  next
    case over: False
    show ?thesis
    proof (cases "find_split_pos self t")
      case (Inl e)
      with over Suc.prems show ?thesis by simp
    next
      case (Inr p)
      with over Suc.prems have
        "c \<in> set (fst (gen_then
            (split_page_by_max_tokens encode self depth pn (fst (split_halves t p)))
            (split_page_by_max_tokens encode self depth pn (snd (split_halves t p)))))"
        by simp
      then have "c \<in> set (fst (split_page_by_max_tokens encode self depth pn (fst (split_halves t p))))
          \<or> c \<in> set (fst (split_page_by_max_tokens encode self depth pn (snd (split_halves t p))))"
        using set_gen_then by fastforce
      then show ?thesis using Suc.IH by blast
    qed
  qed
qed

subsection \<open>A run on \<open>"a. "\<close> with a budget of two tokens\<close>

lemma find_split_pos_example: "find_split_pos tiny_splitter [97, 46, 32] = Inr 2"
  by (simp add: find_split_pos_def ending_at_def py_index_def tiny_splitter_fields)

lemma split_halves_example: "split_halves [97, 46, 32] 2 = ([97, 46], [32])"
  by (simp add: split_halves_def slice_to_def slice_from_def adjust_index_def)

lemma run_example:
  "split_page_by_max_tokens char_tokens tiny_splitter (Suc (Suc (Suc (Suc 0)))) pn [97, 46, 32]
     = ([SplitPage_new pn [97, 46], SplitPage_new pn [32]], Finished)"
  by (simp add: char_tokens_def tiny_splitter_fields find_split_pos_example
      split_halves_example gen_then_def)

text \<open>
  Claim C6. Every chunk that \<open>split_page_by_max_tokens\<close> yields, for every page number,
  text and depth of nesting allowed, and also in a run that ends in an exception, has at
  most \<open>max_tokens_per_section\<close> tokens under the tokenizer in use. Moreover the run
  returns, having yielded at least one chunk, when every text of at most one character
  is within the budget and the depth allowed exceeds the length of the text.
\<close>

theorem chunk_tokens_within_budget:
  "(\<forall>c \<in> set (fst (split_page_by_max_tokens encode self depth pn t :: 'v SplitPage gen)).
      int (length (encode (split_text c))) \<le> max_tokens_per_section self)
   \<and> ((\<forall>u. length u \<le> 1 \<longrightarrow> int (length (encode u)) \<le> max_tokens_per_section self)
        \<and> length t < depth
      \<longrightarrow> snd (split_page_by_max_tokens encode self depth pn t :: 'v SplitPage gen) = Finished
        \<and> fst (split_page_by_max_tokens encode self depth pn t :: 'v SplitPage gen) \<noteq> [])"
  using split_chunk_within_budget[of _ encode self depth pn t]
    split_page_by_max_tokens_finishes[of encode self t depth pn]
    split_page_by_max_tokens_yields[of encode self t depth pn]
  by blast

theorem chunk_tokens_within_budget_witness:
  "(SplitPage_new 7 [97, 46] :: string SplitPage)
     \<in> set (fst (split_page_by_max_tokens char_tokens tiny_splitter (Suc (Suc (Suc (Suc 0)))) 7 [97, 46, 32]))
   \<and> int (length (char_tokens (split_text (SplitPage_new 7 [97, 46] :: string SplitPage))))
     \<le> max_tokens_per_section tiny_splitter
   \<and> length [97, 46, 32 :: nat] < Suc (Suc (Suc (Suc 0)))
   \<and> snd (split_page_by_max_tokens char_tokens tiny_splitter (Suc (Suc (Suc (Suc 0)))) 7 [97, 46, 32]
          :: string SplitPage gen) = Finished
   \<and> fst (split_page_by_max_tokens char_tokens tiny_splitter (Suc (Suc (Suc (Suc 0)))) 7 [97, 46, 32]
          :: string SplitPage gen) \<noteq> []"
proof -
  note w = chunk_tokens_within_budget[where encode = char_tokens and self = tiny_splitter
      and depth = "Suc (Suc (Suc (Suc 0)))" and pn = 7 and t = "[97, 46, 32]" and 'v = string]
  have mem: "(SplitPage_new 7 [97, 46] :: string SplitPage)
     \<in> set (fst (split_page_by_max_tokens char_tokens tiny_splitter (Suc (Suc (Suc (Suc 0)))) 7 [97, 46, 32]))"
    unfolding run_example by simp
  have small: "\<forall>u. length u \<le> 1 \<longrightarrow> int (length (char_tokens u)) \<le> max_tokens_per_section tiny_splitter"
    by (simp add: char_tokens_def tiny_splitter_fields)
  have len: "length [97, 46, 32 :: nat] < Suc (Suc (Suc (Suc 0)))" by simp
  from w mem have bound:
    "int (length (char_tokens (split_text (SplitPage_new 7 [97, 46] :: string SplitPage))))
       \<le> max_tokens_per_section tiny_splitter" by blast
  from w small len have fin:
    "snd (split_page_by_max_tokens char_tokens tiny_splitter (Suc (Suc (Suc (Suc 0)))) 7 [97, 46, 32]
          :: string SplitPage gen) = Finished
     \<and> fst (split_page_by_max_tokens char_tokens tiny_splitter (Suc (Suc (Suc (Suc 0)))) 7 [97, 46, 32]
          :: string SplitPage gen) \<noteq> []" by blast
  from mem bound len fin show ?thesis by blast
qed

text \<open>
  Claim C10. Every chunk that \<open>split_page_by_max_tokens\<close> yields carries the page number
  that was passed in, and its text is a contiguous part of the text that was passed in.
\<close>

theorem chunk_page_num_and_substring:
  "c \<in> set (fst (split_page_by_max_tokens encode self depth pn t)) \<Longrightarrow>
   split_page_num c = pn \<and> sublist (split_text c) t"
proof (induction depth arbitrary: t)
  case 0
  then show ?case by simp
next
  case (Suc depth)
  show ?case
  proof (cases "int (length (encode t)) \<le> max_tokens_per_section self")
    case True
    with Suc.prems show ?thesis by (simp add: SplitPage_new_def)
  next
    case over: False
    show ?thesis
    proof (cases "find_split_pos self t")
      case (Inl e)
      with over Suc.prems show ?thesis by simp
    next
      case (Inr p)
      with over Suc.prems have
        "c \<in> set (fst (gen_then
            (split_page_by_max_tokens encode self depth pn (fst (split_halves t p)))
            (split_page_by_max_tokens encode self depth pn (snd (split_halves t p)))))"
        by simp
      then consider
          (first) "c \<in> set (fst (split_page_by_max_tokens encode self depth pn (fst (split_halves t p))))"
        | (second) "c \<in> set (fst (split_page_by_max_tokens encode self depth pn (snd (split_halves t p))))"
        using set_gen_then by fastforce
      then show ?thesis
      proof cases
        case first
        from Suc.IH[OF first] sublist_split_halves(1)[of t p] show ?thesis
          by (blast intro: sublist_order.order_trans)
      next
        case second
        from Suc.IH[OF second] sublist_split_halves(2)[of t p] show ?thesis
          by (blast intro: sublist_order.order_trans)
      qed
    qed
  qed
qed

theorem chunk_page_num_and_substring_witness:
  "(SplitPage_new 7 [32] :: string SplitPage)
     \<in> set (fst (split_page_by_max_tokens char_tokens tiny_splitter (Suc (Suc (Suc (Suc 0)))) 7 [97, 46, 32]))
   \<and> split_page_num (SplitPage_new 7 [32] :: string SplitPage) = 7
   \<and> sublist (split_text (SplitPage_new 7 [32] :: string SplitPage)) [97, 46, 32]"
proof -
  have mem: "(SplitPage_new 7 [32] :: string SplitPage)
     \<in> set (fst (split_page_by_max_tokens char_tokens tiny_splitter (Suc (Suc (Suc (Suc 0)))) 7 [97, 46, 32]))"
    unfolding run_example by simp
  show ?thesis by (rule conjI[OF mem chunk_page_num_and_substring[OF mem]])
qed

subsection \<open>A single character over the budget\<close>

lemma split_empty_status:
  "snd (split_page_by_max_tokens encode self depth pn [] :: 'v SplitPage gen) = Finished
   \<or> snd (split_page_by_max_tokens encode self depth pn [] :: 'v SplitPage gen) = Raised RecursionError"
proof (induction depth)
  case 0
  then show ?case by simp
next
  case (Suc depth)
  show ?case
  proof (cases "int (length (encode [])) \<le> max_tokens_per_section self")
    case True
    then show ?thesis by simp
  next
    case False
    then have "snd (split_page_by_max_tokens encode self (Suc depth) pn [] :: 'v SplitPage gen)
        = snd (split_page_by_max_tokens encode self depth pn [] :: 'v SplitPage gen)"
      by (simp add: find_split_pos_short split_halves_empty snd_gen_then)
    with Suc show ?thesis by simp
  qed
qed

text \<open>
  Claim C5. The claim says that every recursive call is on a strictly shorter text. For a
  text of one character whose token count exceeds the budget this fails: no offset is
  searched, the fallback applies with \<open>mid = 0\<close> and \<open>pad = 0\<close>, so \<open>pad < length div 2\<close>
  does not hold, the second half is the whole text again, and the recursion goes on
  until the interpreter raises \<open>RecursionError\<close>, whatever depth it allows. (For texts of
  two or more characters both halves are shorter: \<open>split_halves_shorter\<close>.)
\<close>

theorem single_char_over_budget_diverges:
  assumes "length t = 1" and "max_tokens_per_section self < int (length (encode t))"
  shows "snd (split_halves t (- 1)) = t
    \<and> find_split_pos self t = Inr (- 1)
    \<and> snd (split_page_by_max_tokens encode self depth pn t :: 'v SplitPage gen) = Raised RecursionError"
proof -
  have over: "\<not> int (length (encode t)) \<le> max_tokens_per_section self"
    using assms(2) by simp
  have p: "find_split_pos self t = Inr (- 1)"
    using assms(1) by (simp add: find_split_pos_short)
  have h: "split_halves t (- 1) = ([], t)"
    using assms(1) by (rule split_halves_single)
  have run: "snd (split_page_by_max_tokens encode self depth pn t :: 'v SplitPage gen) = Raised RecursionError"
  proof (induction depth)
    case 0
    then show ?case by simp
  next
    case (Suc depth)
    have step: "snd (split_page_by_max_tokens encode self (Suc depth) pn t :: 'v SplitPage gen)
        = (if snd (split_page_by_max_tokens encode self depth pn [] :: 'v SplitPage gen) = Finished
           then snd (split_page_by_max_tokens encode self depth pn t :: 'v SplitPage gen)
           else snd (split_page_by_max_tokens encode self depth pn [] :: 'v SplitPage gen))"
      using over p h by (simp add: snd_gen_then)
    show ?case
      unfolding step using split_empty_status[of encode self depth pn, where 'v = 'v] Suc by auto
  qed
  from h p run show ?thesis by simp
qed

theorem single_char_over_budget_diverges_witness:
  "length [97::nat] = 1
   \<and> max_tokens_per_section zero_budget_splitter < int (length (char_tokens [97]))
   \<and> snd (split_halves [97] (- 1)) = [97]
   \<and> find_split_pos zero_budget_splitter [97] = Inr (- 1)
   \<and> snd (split_page_by_max_tokens char_tokens zero_budget_splitter (Suc (Suc (Suc 0))) 0 [97]
            :: string SplitPage gen) = Raised RecursionError"
proof -
  have a: "length [97::nat] = 1" by simp
  have b: "max_tokens_per_section zero_budget_splitter < int (length (char_tokens [97]))"
    by (simp add: zero_budget_splitter_def SentenceTextSplitter_init_def char_tokens_def)
  note c = single_char_over_budget_diverges[where t = "[97]" and self = zero_budget_splitter
      and encode = char_tokens and depth = "Suc (Suc (Suc 0))" and pn = 0, OF a b]
  show ?thesis by (intro conjI a b c[THEN conjunct1] c[THEN conjunct2, THEN conjunct1]
      c[THEN conjunct2, THEN conjunct2])
qed

section \<open>Metadata of the chunks\<close>

text \<open>Every chunk of either strategy is built by \<open>SplitPage(page_num=..., text=...)\<close>.\<close>

lemma split_tokens_chunks_new:
  "c \<in> set (fst (split_page_by_max_tokens encode self depth pn t)) \<Longrightarrow>
   \<exists>p u. c = SplitPage_new p u"
proof (induction depth arbitrary: t)
  case 0
  then show ?case by simp
next
  case (Suc depth)
  show ?case
  proof (cases "int (length (encode t)) \<le> max_tokens_per_section self")
    case True
    with Suc.prems show ?thesis by auto
  next
    case over: False
    show ?thesis
    proof (cases "find_split_pos self t")
      case (Inl e)
      with over Suc.prems show ?thesis by simp
    next
      case (Inr p)
      with over Suc.prems have
        "c \<in> set (fst (gen_then
            (split_page_by_max_tokens encode self depth pn (fst (split_halves t p)))
            (split_page_by_max_tokens encode self depth pn (snd (split_halves t p)))))"
        by simp
      then have "c \<in> set (fst (split_page_by_max_tokens encode self depth pn (fst (split_halves t p))))
          \<or> c \<in> set (fst (split_page_by_max_tokens encode self depth pn (snd (split_halves t p))))"
        using set_gen_then by fastforce
      then show ?thesis using Suc.IH by blast
    qed
  qed
qed

lemma window_loop_chunks_new:
  "c \<in> set (fst (window_loop encode self depth pages all_text fuel start)) \<Longrightarrow>
   \<exists>p u. c = SplitPage_new p u"
proof (induction fuel arbitrary: start)
  case 0
  then show ?case by simp
next
  case (Suc fuel)
  show ?case
  proof (cases "start < int (length all_text)")
    case False
    with Suc.prems show ?thesis by simp
  next
    case inside: True
    show ?thesis
    proof (cases "extend_end self all_text start")
      case (Inl e)
      with inside Suc.prems show ?thesis by simp
    next
      case e: (Inr end1)
      show ?thesis
      proof (cases "find_page pages start")
        case (Inl e')
        with inside e Suc.prems show ?thesis by simp
      next
        case (Inr pn)
        with inside e Suc.prems have
          "c \<in> set (fst (gen_then
              (split_page_by_max_tokens encode self depth pn (slice all_text start end1))
              (window_loop encode self depth pages all_text fuel (end1 - section_overlap self))))"
          by simp
        then have "c \<in> set (fst (split_page_by_max_tokens encode self depth pn (slice all_text start end1)))
          \<or> c \<in> set (fst (window_loop encode self depth pages all_text fuel (end1 - section_overlap self)))"
          using set_gen_then by fastforce
        then show ?thesis using Suc.IH split_tokens_chunks_new by blast
      qed
    qed
  qed
qed

lemma simple_chunks_new:
  "c \<in> set (simple_chunks step all_text idx) \<Longrightarrow> \<exists>p u. c = SplitPage_new p u"
proof (induction step all_text idx rule: simple_chunks.induct)
  case (1 step all_text idx)
  show ?case
  proof (cases "0 < step \<and> idx < int (length all_text)")
    case True
    with "1.prems" have "c = SplitPage_new (idx div step) (slice all_text idx (idx + step))
        \<or> c \<in> set (simple_chunks step all_text (idx + step))"
      by (subst (asm) simple_chunks.simps) simp
    with "1.IH"[OF True] show ?thesis by blast
  next
    case False
    with "1.prems" show ?thesis by (subst (asm) simple_chunks.simps) simp
  qed
qed

lemma sentence_chunks_new:
  "c \<in> set (fst (sentence_split_pages encode self depth fuel pages)) \<Longrightarrow>
   \<exists>p u. c = SplitPage_new p u"
proof -
  assume c: "c \<in> set (fst (sentence_split_pages encode self depth fuel pages))"
  define all_text where "all_text = concat (map page_text pages)"
  show ?thesis
  proof (cases "strip all_text = []")
    case True
    with c show ?thesis by (simp add: sentence_split_pages_def all_text_def)
  next
    case nonblank: False
    show ?thesis
    proof (cases "int (length all_text) \<le> max_section_length self")
      case short: True
      show ?thesis
      proof (cases "find_page pages 0")
        case (Inl e)
        with c nonblank short show ?thesis
          by (simp add: sentence_split_pages_def all_text_def)
      next
        case (Inr pn)
        with c nonblank short
        have "c \<in> set (fst (split_page_by_max_tokens encode self depth pn all_text))"
          by (simp add: sentence_split_pages_def all_text_def)
        then show ?thesis by (rule split_tokens_chunks_new)
      qed
    next
      case False
      with c nonblank
      have "c \<in> set (fst (window_loop encode self depth pages all_text fuel 0))"
        by (simp add: sentence_split_pages_def all_text_def)
      then show ?thesis by (rule window_loop_chunks_new)
    qed
  qed
qed

lemma simple_split_chunks_new:
  "c \<in> set (fst (simple_split_pages simple pages)) \<Longrightarrow> \<exists>p u. c = SplitPage_new p u"
  unfolding simple_split_pages_def Let_def
  by (auto split: if_splits dest: simple_chunks_new)

lemma hello_simple:
  "simple_split_pages \<lparr>max_object_length = 1200\<rparr> [hello_page]
     = ([SplitPage_new 0 [72, 101, 108, 108, 111]], Finished)"
  by (simp add: simple_split_pages_def hello_page_def strip_examples)

lemma hello_sentence:
  "sentence_split_pages char_tokens default_splitter (Suc 0) 0 [hello_page]
     = ([SplitPage_new 0 [72, 101, 108, 108, 111]], Finished)"
  by (simp add: sentence_split_pages_def hello_page_def strip_examples default_splitter_fields
      char_tokens_def)

text \<open>
  Claim C3. The claim says that every chunk carries the metadata of the page it is
  attributed to. In the code no splitter passes \<open>meta\<close> to \<open>SplitPage\<close>, so the metadata of
  every chunk of either strategy is the empty dictionary, whatever the metadata of the
  pages. The witness is a page whose metadata holds a \<open>url\<close>.
\<close>

theorem chunk_meta_is_empty:
  "c \<in> set (fst (sentence_split_pages encode self depth fuel pages))
     \<or> c \<in> set (fst (simple_split_pages simple pages)) \<Longrightarrow>
   split_meta c = Map.empty"
proof -
  assume "c \<in> set (fst (sentence_split_pages encode self depth fuel pages))
     \<or> c \<in> set (fst (simple_split_pages simple pages))"
  then have "\<exists>p u. c = SplitPage_new p u"
    using sentence_chunks_new simple_split_chunks_new by blast
  then show ?thesis by (auto simp: SplitPage_new_def)
qed

theorem chunk_meta_is_empty_witness:
  "(SplitPage_new 0 [72, 101, 108, 108, 111] :: string SplitPage)
      \<in> set (fst (sentence_split_pages char_tokens default_splitter (Suc 0) 0 [hello_page]))
   \<and> split_meta (SplitPage_new 0 [72, 101, 108, 108, 111] :: string SplitPage) = Map.empty
   \<and> meta hello_page ''url'' = Some ''https://example.org/hello''
   \<and> meta hello_page \<noteq> Map.empty"
proof -
  have mem: "(SplitPage_new 0 [72, 101, 108, 108, 111] :: string SplitPage)
      \<in> set (fst (sentence_split_pages char_tokens default_splitter (Suc 0) 0 [hello_page]))"
    unfolding hello_sentence by simp
  have e: "split_meta (SplitPage_new 0 [72, 101, 108, 108, 111] :: string SplitPage) = Map.empty"
    by (rule chunk_meta_is_empty[OF disjI1[OF mem]])
  have m: "meta hello_page ''url'' = Some ''https://example.org/hello''"
    by (simp add: hello_page_def)
  then have "meta hello_page \<noteq> Map.empty" by auto
  with mem e m show ?thesis by blast
qed

section \<open>Whitespace\<close>

text \<open>
  Claim C9. When the concatenated text of the pages is empty or holds whitespace only,
  both \<open>SentenceTextSplitter.split_pages\<close> and \<open>SimpleTextSplitter.split_pages\<close> return
  without a chunk.
\<close>

theorem blank_buffer_yields_nothing:
  "\<forall>c \<in> set (concat (map page_text pages)). py_isspace c \<Longrightarrow>
   sentence_split_pages encode self depth fuel pages = ([], Finished)
   \<and> simple_split_pages simple pages = ([], Finished)"
  using strip_Nil_iff[of "concat (map page_text pages)"]
  by (simp add: sentence_split_pages_def simple_split_pages_def)

theorem blank_buffer_yields_nothing_witness:
  "concat (map page_text blank_pages) = [32, 10, 9, 12288]
   \<and> py_isspace 32 \<and> py_isspace 10 \<and> py_isspace 9 \<and> py_isspace 12288
   \<and> sentence_split_pages char_tokens tiny_splitter (Suc 0) (Suc 0) blank_pages = ([], Finished)
   \<and> simple_split_pages \<lparr>max_object_length = 2\<rparr> blank_pages = ([], Finished)"
proof -
  have t: "concat (map page_text blank_pages) = [32, 10, 9, 12288]"
    by (simp add: blank_pages_def)
  have sp: "py_isspace 32" "py_isspace 10" "py_isspace 9" "py_isspace 12288"
    by (simp_all add: py_isspace_def)
  have h: "\<forall>c \<in> set (concat (map page_text blank_pages)). py_isspace c"
    unfolding t using sp by simp
  note r = blank_buffer_yields_nothing[OF h, of char_tokens tiny_splitter "Suc 0" "Suc 0"
      "\<lparr>max_object_length = 2\<rparr>"]
  show ?thesis using t sp r by blast
qed

text \<open>
  Claim C4, as stated, fails: only the whole buffer is tested for whitespace, not the
  chunks. The fixed-length strategy with \<open>max_object_length = 2\<close> on \<open>"a   "\<close> yields
  \<open>"a "\<close> and then a chunk of two spaces; the sentence strategy with a budget of two
  tokens on \<open>"a. "\<close> yields \<open>"a."\<close> and then a chunk of one space.
\<close>

theorem whitespace_chunk_counterexample:
  "simple_split_pages \<lparr>max_object_length = 2\<rparr> [padded_page]
     = ([SplitPage_new 0 [97, 32], SplitPage_new 1 [32, 32]], Finished)
   \<and> strip (split_text (SplitPage_new 1 [32, 32] :: string SplitPage)) = []
   \<and> sentence_split_pages char_tokens tiny_splitter (Suc (Suc (Suc (Suc 0)))) 0 [sentence_page]
     = ([SplitPage_new 0 [97, 46], SplitPage_new 0 [32]], Finished)
   \<and> strip (split_text (SplitPage_new 0 [32] :: string SplitPage)) = []"
proof -
  have a: "simple_split_pages \<lparr>max_object_length = 2\<rparr> [padded_page]
     = ([SplitPage_new 0 [97, 32], SplitPage_new 1 [32, 32]], Finished)"
    by (simp add: simple_split_pages_def padded_page_def strip_examples slice_def adjust_index_def
        simple_chunks.simps)
  have b: "sentence_split_pages char_tokens tiny_splitter (Suc (Suc (Suc (Suc 0)))) 0 [sentence_page]
     = ([SplitPage_new 0 [97, 46], SplitPage_new 0 [32]], Finished)"
    unfolding sentence_split_pages_def
    by (simp add: sentence_page_def strip_examples tiny_splitter_fields run_example
        del: split_page_by_max_tokens.simps)
  show ?thesis using a b by (simp add: SplitPage_new_def strip_spaces)
qed

text \<open>
  Claim C4, amended. A chunk that is the whole concatenated buffer is not entirely
  whitespace: this is every chunk of the fixed-length strategy when the buffer is no
  longer than \<open>max_object_length\<close>, and every chunk of the sentence strategy when the
  buffer is no longer than \<open>max_section_length\<close> and within the token budget.
\<close>

theorem whole_buffer_chunk_not_blank:
  "(int (length (concat (map page_text pages))) \<le> max_object_length simple
      \<longrightarrow> (\<forall>c \<in> set (fst (simple_split_pages simple pages)). strip (split_text c) \<noteq> []))
   \<and> (int (length (concat (map page_text pages))) \<le> max_section_length self
       \<and> int (length (encode (concat (map page_text pages)))) \<le> max_tokens_per_section self
      \<longrightarrow> (\<forall>c \<in> set (fst (sentence_split_pages encode self depth fuel pages)).
            strip (split_text c) \<noteq> []))"
proof -
  define all_text where "all_text = concat (map page_text pages)"
  have simple: "\<forall>c \<in> set (fst (simple_split_pages simple pages)). strip (split_text c) \<noteq> []"
    if "int (length all_text) \<le> max_object_length simple"
    using that unfolding simple_split_pages_def all_text_def
    by (simp add: SplitPage_new_def Let_def)
  have sentence: "\<forall>c \<in> set (fst (sentence_split_pages encode self depth fuel pages)).
      strip (split_text c) \<noteq> []"
    if "int (length all_text) \<le> max_section_length self"
      and "int (length (encode all_text)) \<le> max_tokens_per_section self"
    using that unfolding sentence_split_pages_def all_text_def
    by (cases depth) (auto simp: SplitPage_new_def Let_def split: sum.splits)
  from simple sentence show ?thesis unfolding all_text_def by blast
qed

theorem whole_buffer_chunk_not_blank_witness:
  "int (length (concat (map page_text [hello_page])))
      \<le> max_object_length \<lparr>max_object_length = 1200\<rparr>
   \<and> int (length (concat (map page_text [hello_page]))) \<le> max_section_length default_splitter
   \<and> int (length (char_tokens (concat (map page_text [hello_page]))))
      \<le> max_tokens_per_section default_splitter
   \<and> fst (simple_split_pages \<lparr>max_object_length = 1200\<rparr> [hello_page])
       = [SplitPage_new 0 [72, 101, 108, 108, 111]]
   \<and> fst (sentence_split_pages char_tokens default_splitter (Suc 0) 0 [hello_page])
       = [SplitPage_new 0 [72, 101, 108, 108, 111]]
   \<and> strip (split_text (SplitPage_new 0 [72, 101, 108, 108, 111] :: string SplitPage)) \<noteq> []"
proof -
  have a: "int (length (concat (map page_text [hello_page])))
      \<le> max_object_length \<lparr>max_object_length = 1200\<rparr>"
    by (simp add: hello_page_def)
  have b: "int (length (concat (map page_text [hello_page]))) \<le> max_section_length default_splitter"
    by (simp add: hello_page_def default_splitter_fields)
  have c: "int (length (char_tokens (concat (map page_text [hello_page]))))
      \<le> max_tokens_per_section default_splitter"
    by (simp add: hello_page_def default_splitter_fields char_tokens_def)
  note w = whole_buffer_chunk_not_blank[of "[hello_page]" "\<lparr>max_object_length = 1200\<rparr>"
      default_splitter char_tokens "Suc 0" 0]
  from w a have "\<forall>c \<in> set (fst (simple_split_pages \<lparr>max_object_length = 1200\<rparr> [hello_page])).
      strip (split_text c) \<noteq> []" by blast
  then have d: "strip (split_text (SplitPage_new 0 [72, 101, 108, 108, 111] :: string SplitPage)) \<noteq> []"
    unfolding hello_simple by simp
  from w b c have "\<forall>c \<in> set (fst (sentence_split_pages char_tokens default_splitter (Suc 0) 0
      [hello_page])). strip (split_text c) \<noteq> []" by blast
  then have "strip (split_text (SplitPage_new 0 [72, 101, 108, 108, 111] :: string SplitPage)) \<noteq> []"
    unfolding hello_sentence by simp
  with a b c d show ?thesis by (simp add: hello_simple hello_sentence)
qed

section \<open>The sliding window\<close>

subsection \<open>The cut after the scan\<close>

lemma long_sentences_index:
  "py_index long_sentences 1000 = Some 32" "py_index long_sentences 1001 = Some 98"
  "py_index long_sentences 1002 = Some 98" "py_index long_sentences 1003 = Some 46"
  by (simp_all add: long_sentences_def py_index_def nth_append)

lemma long_scan:
  "scan_forward default_splitter long_sentences 1000 1000 (- 1) = Inr (1003, 1000)"
proof -
  have len: "int (length long_sentences) = 1007" by (simp add: long_sentences_def)
  have "scan_forward default_splitter long_sentences 1000 1003 1000 = Inr (1003, 1000)"
    by (subst scan_forward.simps)
      (simp add: len long_sentences_index default_endings default_splitter_fields)
  then have "scan_forward default_splitter long_sentences 1000 1002 1000 = Inr (1003, 1000)"
    by (subst scan_forward.simps)
      (simp add: len long_sentences_index default_endings default_splitter_fields
        space_is_word_break)
  then have "scan_forward default_splitter long_sentences 1000 1001 1000 = Inr (1003, 1000)"
    by (subst scan_forward.simps)
      (simp add: len long_sentences_index default_endings default_splitter_fields
        space_is_word_break)
  then show ?thesis
    by (subst scan_forward.simps)
      (simp add: len long_sentences_index default_endings default_splitter_fields
        space_is_word_break)
qed

text \<open>
  Claim C2. The claim says that a sentence ending reached within the search limit
  decides the cut, and that a recorded word break is used only when the limit is
  exhausted. In the code the test after the scan is
  \<open>cursor < total_len and last_word_break > 0\<close>, which does not ask why the scan stopped.
  With the default splitter on 1000 letters followed by \<open>" bb. cc"\<close>, the scan from 1000
  records the space at 1000 and stops at the full stop at 1003, three characters into a
  limit of 100; the window is then cut at 1001, one past the space, not at 1003.
\<close>

theorem word_break_overrides_sentence_ending:
  "scan_forward default_splitter long_sentences 1000 1000 (- 1) = Inr (1003, 1000)
   \<and> py_index long_sentences 1003 = Some 46
   \<and> 46 \<in> set (sentence_endings default_splitter)
   \<and> 1003 - 1000 < sentence_search_limit default_splitter
   \<and> extend_end default_splitter long_sentences 0 = Inr 1001"
proof -
  have b: "46 \<in> set (sentence_endings default_splitter)"
    "1003 - 1000 < sentence_search_limit default_splitter"
    by (simp_all add: default_endings default_splitter_fields)
  have m: "min (0 + max_section_length default_splitter) (int (length long_sentences)) = 1000"
    by (simp add: default_splitter_fields long_sentences_def)
  have c: "extend_end default_splitter long_sentences 0 = Inr 1001"
    unfolding extend_end_def m Let_def long_scan
    by (simp add: cut_position_def long_sentences_def)
  from long_scan long_sentences_index(4) b c show ?thesis by simp
qed

subsection \<open>The loop over the windows\<close>

text \<open>The scan never moves past the end of the text, and neither does the cut.\<close>

lemma scan_forward_bounds:
  "scan_forward self all_text end0 cursor lwb = Inr (c', l') \<Longrightarrow>
   cursor \<le> int (length all_text) \<Longrightarrow> lwb \<le> 0 \<or> lwb < cursor \<Longrightarrow>
   c' \<le> int (length all_text) \<and> (l' \<le> 0 \<or> l' < c')"
proof (induction self all_text end0 cursor lwb rule: scan_forward.induct)
  case (1 self all_text end0 cursor lwb)
  show ?case
  proof (cases "cursor < int (length all_text) \<and> cursor - end0 < sentence_search_limit self")
    case False
    with "1.prems" show ?thesis by (simp add: scan_forward.simps)
  next
    case go: True
    show ?thesis
    proof (cases "py_index all_text cursor")
      case None
      with go "1.prems"(1) show ?thesis by (simp add: scan_forward.simps)
    next
      case (Some c)
      show ?thesis
      proof (cases "c \<in> set (sentence_endings self)")
        case True
        with go Some "1.prems" show ?thesis by (simp add: scan_forward.simps)
      next
        case False
        define lwb' where "lwb' = (if c \<in> set (word_breaks self) then cursor else lwb)"
        have step: "scan_forward self all_text end0 (cursor + 1) lwb' = Inr (c', l')"
          using go Some False "1.prems"(1) unfolding lwb'_def
          by (subst (asm) scan_forward.simps) simp
        have le: "cursor + 1 \<le> int (length all_text)" using go by simp
        have inv: "lwb' \<le> 0 \<or> lwb' < cursor + 1"
          using "1.prems"(3) unfolding lwb'_def by auto
        show ?thesis
          using "1.IH"[OF go Some False step[unfolded lwb'_def] le inv[unfolded lwb'_def]] .
      qed
    qed
  qed
qed

lemma extend_end_le:
  assumes "extend_end self all_text start = Inr e"
  shows "e \<le> int (length all_text)"
proof -
  define end0 where "end0 = min (start + max_section_length self) (int (length all_text))"
  from assms obtain c' l' where
    scan: "scan_forward self all_text end0 end0 (- 1) = Inr (c', l')"
    and e: "e = cut_position all_text c' l'"
    unfolding extend_end_def Let_def end0_def[symmetric]
    by (auto split: sum.splits)
  have "end0 \<le> int (length all_text)" unfolding end0_def by simp
  from scan_forward_bounds[OF scan this] have "c' \<le> int (length all_text)" "l' \<le> 0 \<or> l' < c'"
    by simp_all
  then show ?thesis unfolding e cut_position_def by auto
qed

text \<open>
  Without an overlap the loop does return: from a \<open>start\<close> that is not negative the scan
  raises nothing, the cut lies at or beyond \<open>min(start + max_section_length, total_len)\<close>,
  and \<open>start\<close> grows with every window. (The token recursion of each window returns under
  the conditions of \<open>split_page_by_max_tokens_finishes\<close>.)
\<close>

lemma find_page_nonempty: "pages \<noteq> [] \<Longrightarrow> \<exists>pn. find_page pages off = Inr pn"
  by (induction pages off rule: find_page.induct) auto

lemma scan_forward_total:
  "0 \<le> cursor \<Longrightarrow> end0 \<le> cursor \<Longrightarrow> lwb = - 1 \<or> end0 \<le> lwb \<Longrightarrow>
   \<exists>c' l'. scan_forward self all_text end0 cursor lwb = Inr (c', l')
      \<and> cursor \<le> c' \<and> (l' = - 1 \<or> end0 \<le> l')"
proof (induction self all_text end0 cursor lwb rule: scan_forward.induct)
  case (1 self all_text end0 cursor lwb)
  show ?case
  proof (cases "cursor < int (length all_text) \<and> cursor - end0 < sentence_search_limit self")
    case False
    then have "scan_forward self all_text end0 cursor lwb = Inr (cursor, lwb)"
      by (subst scan_forward.simps) auto
    with "1.prems" show ?thesis by simp
  next
    case go: True
    with "1.prems"(1) have idx: "py_index all_text cursor = Some (all_text ! nat cursor)"
      by (simp add: py_index_def)
    define c where "c = all_text ! nat cursor"
    show ?thesis
    proof (cases "c \<in> set (sentence_endings self)")
      case True
      with go idx "1.prems" show ?thesis by (simp add: scan_forward.simps c_def)
    next
      case False
      define lwb' where "lwb' = (if c \<in> set (word_breaks self) then cursor else lwb)"
      have inv: "lwb' = - 1 \<or> end0 \<le> lwb'"
        using "1.prems"(2,3) unfolding lwb'_def by auto
      have "\<exists>c' l'. scan_forward self all_text end0 (cursor + 1) lwb' = Inr (c', l')
          \<and> cursor + 1 \<le> c' \<and> (l' = - 1 \<or> end0 \<le> l')"
        using "1.IH"[OF go idx[folded c_def] False] "1.prems"(1,2) inv unfolding lwb'_def by simp
      moreover have "scan_forward self all_text end0 cursor lwb
          = scan_forward self all_text end0 (cursor + 1) lwb'"
        using go idx False unfolding lwb'_def c_def
        by (subst scan_forward.simps) simp
      ultimately show ?thesis by auto
    qed
  qed
qed

lemma extend_end_total:
  assumes "0 \<le> start" and "0 < max_section_length self"
  shows "\<exists>e. extend_end self all_text start = Inr e
     \<and> min (start + max_section_length self) (int (length all_text)) \<le> e
     \<and> e \<le> int (length all_text)"
proof -
  define end0 where "end0 = min (start + max_section_length self) (int (length all_text))"
  have "0 \<le> end0" using assms unfolding end0_def by simp
  from scan_forward_total[OF this, of end0 "- 1" self all_text]
  obtain c' l' where scan: "scan_forward self all_text end0 end0 (- 1) = Inr (c', l')"
    and c': "end0 \<le> c'" and l': "l' = - 1 \<or> end0 \<le> l'" by auto
  have e: "extend_end self all_text start = Inr (cut_position all_text c' l')"
    unfolding extend_end_def Let_def end0_def[symmetric] scan by simp
  have "end0 \<le> cut_position all_text c' l'"
    using c' l' unfolding cut_position_def by auto
  with e extend_end_le[OF e] show ?thesis unfolding end0_def by simp
qed

lemma length_slice_le: "length (slice xs lo hi) \<le> length xs"
  by (simp add: slice_def)

lemma window_loop_finishes:
  assumes ov: "section_overlap self \<le> 0" and msl: "0 < max_section_length self"
    and budget: "\<And>u. length u \<le> 1 \<Longrightarrow> int (length (encode u)) \<le> max_tokens_per_section self"
    and depth: "length all_text < depth"
    and pages: "pages \<noteq> []"
  shows "0 \<le> start \<Longrightarrow>
    \<exists>fuel. snd (window_loop encode self depth pages all_text fuel start :: 'v SplitPage gen) = Finished"
proof (induction "nat (int (length all_text) - start)" arbitrary: start rule: less_induct)
  case less
  show ?case
  proof (cases "start < int (length all_text)")
    case False
    then have "snd (window_loop encode self depth pages all_text (Suc 0) start :: 'v SplitPage gen)
        = Finished" by simp
    then show ?thesis by blast
  next
    case inside: True
    from extend_end_total[OF less.prems msl, of all_text] obtain e where
      e: "extend_end self all_text start = Inr e"
      and lo: "min (start + max_section_length self) (int (length all_text)) \<le> e"
      and hi: "e \<le> int (length all_text)" by blast
    from find_page_nonempty[OF pages, of start] obtain pn where pn: "find_page pages start = Inr pn"
      by blast
    have grow: "start < e - section_overlap self" using lo inside msl ov by simp
    then have "nat (int (length all_text) - (e - section_overlap self))
        < nat (int (length all_text) - start)" using inside by simp
    moreover have "0 \<le> e - section_overlap self" using grow less.prems by simp
    ultimately obtain fuel where rest:
      "snd (window_loop encode self depth pages all_text fuel (e - section_overlap self)
          :: 'v SplitPage gen) = Finished"
      using less.hyps by blast
    have l: "length (slice all_text start e) < depth"
      using length_slice_le[of all_text start e] depth by simp
    have inner: "snd (split_page_by_max_tokens encode self depth pn (slice all_text start e)
        :: 'v SplitPage gen) = Finished"
      by (rule split_page_by_max_tokens_finishes[OF budget l])
    have "snd (window_loop encode self depth pages all_text (Suc fuel) start :: 'v SplitPage gen)
        = Finished"
      using inside e pn inner rest by (simp add: snd_gen_then_Finished)
    then show ?thesis by blast
  qed
qed

lemma no_overlap_example:
  "sentence_split_pages char_tokens no_overlap_splitter (Suc 0) (Suc (Suc 0)) [eleven_page]
     = ([SplitPage_new 0 [97, 97, 97, 97, 97, 97, 97, 97, 97, 97, 97]], Finished)"
proof -
  let ?t = "[97, 97, 97, 97, 97, 97, 97, 97, 97, 97, 97] :: ustr"
  have f: "max_tokens_per_section no_overlap_splitter = 500"
    "max_section_length no_overlap_splitter = 10"
    "section_overlap no_overlap_splitter = 0"
    "sentence_search_limit no_overlap_splitter = 100"
    by (simp_all add: no_overlap_splitter_def init_fields trunc_div100_def)
  have e0: "extend_end no_overlap_splitter ?t 0 = Inr 11"
    by (simp add: extend_end_def scan_forward.simps cut_position_def f
        no_overlap_splitter_def init_fields py_index_def)
  have s0: "slice ?t 0 11 = ?t"
    by (simp add: slice_def adjust_index_def)
  show ?thesis
    by (simp add: sentence_split_pages_def eleven_page_def strip_def py_isspace_def
        f e0 s0 gen_then_def char_tokens_def)
qed

text \<open>
  With a positive overlap the next \<open>start\<close> is below the length of the text after every
  window, so the test \<open>start < total_len\<close> never fails.
\<close>

lemma window_loop_never_finishes:
  assumes overlap: "0 < section_overlap self"
  shows "start < int (length all_text) \<Longrightarrow>
    snd (window_loop encode self depth pages all_text fuel start :: 'v SplitPage gen) \<noteq> Finished"
proof (induction fuel arbitrary: start)
  case 0
  then show ?case by simp
next
  case (Suc fuel)
  show ?case
  proof (cases "extend_end self all_text start")
    case (Inl e)
    with Suc.prems show ?thesis by simp
  next
    case e: (Inr end1)
    show ?thesis
    proof (cases "find_page pages start")
      case (Inl e')
      with Suc.prems e show ?thesis by simp
    next
      case (Inr pn)
      have "end1 - section_overlap self < int (length all_text)"
        using extend_end_le[OF e] overlap by simp
      then have rest: "snd (window_loop encode self depth pages all_text fuel
          (end1 - section_overlap self) :: 'v SplitPage gen) \<noteq> Finished"
        by (rule Suc.IH)
      have "snd (window_loop encode self depth pages all_text (Suc fuel) start :: 'v SplitPage gen)
        = snd (gen_then
            (split_page_by_max_tokens encode self depth pn (slice all_text start end1))
            (window_loop encode self depth pages all_text fuel (end1 - section_overlap self)
               :: 'v SplitPage gen))"
        using Suc.prems e Inr by simp
      with rest show ?thesis by (simp add: snd_gen_then)
    qed
  qed
qed

text \<open>
  The state the loop ends up in: from \<open>start = total_len - section_overlap\<close> the window
  runs to the end of the text, and the next \<open>start\<close> is the same again.
\<close>

lemma window_stuck_at_end:
  assumes "0 < section_overlap self" and "section_overlap self \<le> max_section_length self"
  shows "extend_end self all_text (int (length all_text) - section_overlap self)
    = Inr (int (length all_text))"
proof -
  have "min (int (length all_text) - section_overlap self + max_section_length self)
      (int (length all_text)) = int (length all_text)"
    using assms by simp
  then show ?thesis
    by (simp add: extend_end_def scan_forward.simps cut_position_def)
qed

lemma stuck_window_example:
  "sentence_split_pages char_tokens ten_char_splitter (Suc 0) (Suc (Suc (Suc 0))) [eleven_page]
     = ([SplitPage_new 0 [97, 97, 97, 97, 97, 97, 97, 97, 97, 97, 97],
         SplitPage_new 0 [97], SplitPage_new 0 [97]], Running)"
proof -
  let ?t = "[97, 97, 97, 97, 97, 97, 97, 97, 97, 97, 97] :: ustr"
  have e0: "extend_end ten_char_splitter ?t 0 = Inr 11"
    by (simp add: extend_end_def scan_forward.simps cut_position_def ten_char_fields
        ten_char_splitter_def init_fields py_index_def)
  have e10: "extend_end ten_char_splitter ?t 10 = Inr 11"
    using window_stuck_at_end[of ten_char_splitter ?t] by (simp add: ten_char_fields)
  have s0: "slice ?t 0 11 = ?t" and s10: "slice ?t 10 11 = [97]"
    by (simp_all add: slice_def adjust_index_def)
  show ?thesis
    by (simp add: sentence_split_pages_def eleven_page_def strip_def py_isspace_def
        ten_char_fields e0 e10 s0 s10 gen_then_def char_tokens_def)
qed

text \<open>
  Claim C1. The claim says that \<open>split_pages\<close> terminates on every text longer than
  \<open>max_section_length\<close>. In the code, with a positive \<open>section_overlap\<close> (the default is
  100) and a text that is longer than \<open>max_section_length\<close> and not all whitespace, the
  generator never returns: however many loop tests are observed, the run is still going
  or has raised. \<open>start\<close> does not increase once a window has reached the end of the text.
\<close>

theorem sentence_split_pages_never_finishes:
  assumes "0 < section_overlap self"
    and "max_section_length self < int (length (concat (map page_text pages)))"
    and "strip (concat (map page_text pages)) \<noteq> []"
  shows "snd (sentence_split_pages encode self depth fuel pages) \<noteq> Finished"
proof -
  have "concat (map page_text pages) \<noteq> []"
    by (rule strip_nonempty[OF assms(3)])
  then have "0 < int (length (concat (map page_text pages)))" by simp
  from window_loop_never_finishes[OF assms(1) this]
  show ?thesis using assms(2,3) by (simp add: sentence_split_pages_def)
qed

theorem sentence_split_pages_never_finishes_witness:
  "0 < section_overlap default_splitter
   \<and> section_overlap default_splitter < max_section_length default_splitter
   \<and> max_section_length default_splitter < int (length (concat (map page_text [long_page])))
   \<and> strip (concat (map page_text [long_page])) \<noteq> []
   \<and> snd (sentence_split_pages char_tokens default_splitter (Suc 0) (Suc (Suc (Suc 0)))
           [long_page]) \<noteq> Finished"
proof -
  have a: "0 < section_overlap default_splitter"
    and a': "section_overlap default_splitter < max_section_length default_splitter"
    by (simp_all add: default_splitter_fields)
  have b: "max_section_length default_splitter < int (length (concat (map page_text [long_page])))"
    by (simp add: default_splitter_fields long_page_def)
  have "\<not> py_isspace 97" by (simp add: py_isspace_def)
  then have c: "strip (concat (map page_text [long_page])) \<noteq> []"
    by (simp add: strip_Nil_iff long_page_def)
  note r = sentence_split_pages_never_finishes[OF a b c, of char_tokens "Suc 0" "Suc (Suc (Suc 0))"]
  from a a' b c r show ?thesis by blast
qed

end
